theory Spec2Isabelle
  imports Complex_Main
begin

section \<open>The idle queue of imteekay/idle-until-urgent\<close>

text \<open>
  A shallow embedding of \<^verbatim>\<open>src/IdleQueue.ts\<close> and \<^verbatim>\<open>src/idleCbWithPolyfill.ts\<close>.
  JavaScript numbers are modelled as reals (finite values only), the counter
  \<^verbatim>\<open>tasksProcessed\<close> as a natural number and \<^verbatim>\<open>maxTasksPerIteration\<close> as an integer.
  The page the queue lives in (clock, visibility, registered listeners, pending idle
  callbacks, queued microtasks, console) and the fields of the one \<^verbatim>\<open>IdleQueue\<close>
  instance are the fields of one record, passed from call to call. What \<^verbatim>\<open>utils/env\<close>
  and \<^verbatim>\<open>utils/now\<close> export (\<^verbatim>\<open>isBrowser\<close>, \<^verbatim>\<open>isSafari\<close>, \<^verbatim>\<open>now\<close>) is read from the page.
\<close>

subsection \<open>Data\<close>

datatype visibility = Hidden | Visible | Prerender | Unloaded

record State =
  time :: real
  visibilityState :: visibility

text \<open>
  A task is code of the caller. The model keeps what the queue can observe of a call:
  which task it is, how long its body runs, and whether the body throws. Task bodies
  that call back into the queue are outside the model.
\<close>

datatype error = Error nat

datatype Task = Task (ident: nat) (duration: real) (throws: "error option")

record TaskQueueItem =
  state :: State
  task :: Task
  minTaskTime :: real

text \<open>The optional second argument of \<^verbatim>\<open>pushTask\<close> and \<^verbatim>\<open>unshiftTask\<close>.\<close>

datatype options = Options (opt_minTaskTime: "real option")

text \<open>The argument of the constructor; an absent field takes its default.\<close>

record config =
  cfg_ensureTasksRun :: "bool option"
  cfg_defaultMinTaskTime :: "real option"
  cfg_maxTasksPerIteration :: "int option"

text \<open>
  A deadline object is either the host's own (what it reports is up to the host, here a
  function of the clock) or an instance of the class \<^verbatim>\<open>IdleDeadline\<close> of the polyfill.
\<close>

datatype IdleDeadline =
    HostIdleDeadline (host_didTimeout: bool) (host_timeRemaining: "real \<Rightarrow> real")
  | ShimIdleDeadline (initTime: real)

text \<open>
  The two functions the constructor registers as listeners: the arrow function that
  tests the visibility, and the bound \<^verbatim>\<open>this.runTasksImmediately\<close>.
\<close>

datatype listener = HiddenArrow | BoundRunTasksImmediately

datatype microtask_scheduler = NativeQueueMicrotask | ViaPromises | ViaMutationObserver

text \<open>One call of a task, as the task sees it: its argument and what \<^verbatim>\<open>getState()\<close> returns.\<close>

record invocation =
  called :: Task
  argument :: State
  observed :: "State option"

record World =
  \<comment> \<open>the host\<close>
  isBrowser :: bool
  isSafari :: bool
  has_requestIdleCallback :: bool
  has_queueMicrotask :: bool
  has_native_Promise :: bool
  document_visibilityState :: visibility
  clock :: real
  listeners :: "(string \<times> listener \<times> bool) list"
  last_handle :: nat
  idle_requests :: "(nat \<times> IdleDeadline option) list"
  microtasks :: nat
  console :: "error list"
  trace :: "invocation list"
  \<comment> \<open>the fields of the instance\<close>
  idleCallbackHandle :: "nat option"
  taskQueue :: "TaskQueueItem list"
  isProcessing :: bool
  state :: "State option"
  defaultMinTaskTime :: real
  maxTasksPerIteration :: int
  ensureTasksRun :: bool
  queueMicrotask :: "microtask_scheduler option"

definition DEFAULT_MIN_TASK_TIME :: real where
  "DEFAULT_MIN_TASK_TIME = 0"

definition MAX_TASKS_PER_ITERATION :: int where
  "MAX_TASKS_PER_ITERATION = 20"

subsection \<open>JavaScript truthiness\<close>

text \<open>\<^verbatim>\<open>x || y\<close> for an optional number \<open>x\<close>: \<^verbatim>\<open>undefined\<close> and \<open>0\<close> are falsy.\<close>

definition js_or :: "real option \<Rightarrow> real \<Rightarrow> real" where
  "js_or x y = (case x of None \<Rightarrow> y | Some v \<Rightarrow> if v = 0 then y else v)"

text \<open>A handle is truthy when it is neither \<^verbatim>\<open>null\<close> nor \<open>0\<close>.\<close>

definition truthy :: "nat option \<Rightarrow> bool" where
  "truthy h = (case h of None \<Rightarrow> False | Some n \<Rightarrow> n \<noteq> 0)"

subsection \<open>The host\<close>

text \<open>\<^verbatim>\<open>now()\<close> of \<^verbatim>\<open>utils/now\<close> reads the clock.\<close>

definition now :: "World \<Rightarrow> real" where
  "now w = clock w"

definition supportsRequestIdleCallback :: "World \<Rightarrow> bool" where
  "supportsRequestIdleCallback w = (isBrowser w \<and> has_requestIdleCallback w)"

fun didTimeout :: "IdleDeadline \<Rightarrow> bool" where
  "didTimeout (ShimIdleDeadline i) = False"
| "didTimeout (HostIdleDeadline b f) = b"

text \<open>\<^verbatim>\<open>timeRemaining()\<close>; the second argument is the clock at the time of the call.\<close>

fun timeRemaining :: "IdleDeadline \<Rightarrow> real \<Rightarrow> real" where
  "timeRemaining (ShimIdleDeadline i) t = max 0 (50 - (t - i))"
| "timeRemaining (HostIdleDeadline b f) t = f t"

text \<open>
  Both \<^verbatim>\<open>setTimeout\<close> and the host's \<^verbatim>\<open>requestIdleCallback\<close> return a fresh positive
  identifier and keep the callback pending. The shim builds the deadline object at the
  time of the request; the host builds its own when the callback runs.
\<close>

definition requestIdleCallbackShim :: "World \<Rightarrow> nat \<times> World" where
  "requestIdleCallbackShim w =
    (let deadline = ShimIdleDeadline (now w);
         timeoutId = Suc (last_handle w)
     in (timeoutId,
         w\<lparr>last_handle := timeoutId,
           idle_requests := idle_requests w @ [(timeoutId, Some deadline)]\<rparr>))"

definition requestIdleCallback :: "World \<Rightarrow> nat \<times> World" where
  "requestIdleCallback w =
    (let handle = Suc (last_handle w)
     in (handle,
         w\<lparr>last_handle := handle,
           idle_requests := idle_requests w @ [(handle, None)]\<rparr>))"

definition clearTimeout :: "nat \<Rightarrow> World \<Rightarrow> World" where
  "clearTimeout handle w =
    w\<lparr>idle_requests := filter (\<lambda>r. fst r \<noteq> handle) (idle_requests w)\<rparr>"

definition cancelIdleCallback :: "nat \<Rightarrow> World \<Rightarrow> World" where
  "cancelIdleCallback handle w =
    w\<lparr>idle_requests := filter (\<lambda>r. fst r \<noteq> handle) (idle_requests w)\<rparr>"

definition cancelIdleCallbackShim :: "nat option \<Rightarrow> World \<Rightarrow> World" where
  "cancelIdleCallbackShim handle w =
    (case handle of
       None \<Rightarrow> w
     | Some h \<Rightarrow> if h \<noteq> 0 then clearTimeout h w else w)"

definition rIC :: "World \<Rightarrow> nat \<times> World" where
  "rIC w = (if supportsRequestIdleCallback w then requestIdleCallback w
            else requestIdleCallbackShim w)"

definition cIC :: "nat \<Rightarrow> World \<Rightarrow> World" where
  "cIC handle w = (if supportsRequestIdleCallback w then cancelIdleCallback handle w
                   else cancelIdleCallbackShim (Some handle) w)"

text \<open>
  \<^verbatim>\<open>createQueueMicrotask\<close> picks one of three ways to queue a microtask. Each of
  them leaves the callback queued; the callback is always \<^verbatim>\<open>this.runTasks\<close>, so the
  queue of microtasks is kept as their number.
\<close>

definition createQueueMicrotask :: "World \<Rightarrow> microtask_scheduler" where
  "createQueueMicrotask w =
    (if isBrowser w \<and> has_queueMicrotask w then NativeQueueMicrotask
     else if has_native_Promise w then ViaPromises
     else ViaMutationObserver)"

definition call_queueMicrotask :: "World \<Rightarrow> World" where
  "call_queueMicrotask w = w\<lparr>microtasks := Suc (microtasks w)\<rparr>"

text \<open>
  A registration is an event type, a callback and the capture flag. Adding one that is
  already there does nothing; removing takes out the registration with the same three
  components, if there is one.
\<close>

definition addEventListener :: "string \<Rightarrow> listener \<Rightarrow> bool \<Rightarrow> World \<Rightarrow> World" where
  "addEventListener type callback capture w =
    (if (type, callback, capture) \<in> set (listeners w) then w
     else w\<lparr>listeners := listeners w @ [(type, callback, capture)]\<rparr>)"

definition removeEventListener :: "string \<Rightarrow> listener \<Rightarrow> bool \<Rightarrow> World \<Rightarrow> World" where
  "removeEventListener type callback capture w =
    w\<lparr>listeners := removeAll (type, callback, capture) (listeners w)\<rparr>"

definition console_error :: "error \<Rightarrow> World \<Rightarrow> World" where
  "console_error err w = w\<lparr>console := console w @ [err]\<rparr>"

subsection \<open>\<^verbatim>\<open>shouldYield\<close>\<close>

definition shouldYield :: "IdleDeadline option \<Rightarrow> real option \<Rightarrow> real \<Rightarrow> bool" where
  "shouldYield deadline minTaskTime' t =
    (case deadline of
       None \<Rightarrow> False
     | Some d \<Rightarrow> timeRemaining d t \<le> js_or minTaskTime' 0)"

subsection \<open>The class \<^verbatim>\<open>IdleQueue\<close>\<close>

text \<open>
  The constructor sets the fields of the instance on the page it is called in, and
  registers the listeners.
\<close>

definition constructor :: "config \<Rightarrow> World \<Rightarrow> World" where
  "constructor cfg w =
    (let w1 = w\<lparr>idleCallbackHandle := None,
                taskQueue := [],
                isProcessing := False,
                state := None,
                defaultMinTaskTime :=
                  (case cfg_defaultMinTaskTime cfg of
                     None \<Rightarrow> DEFAULT_MIN_TASK_TIME | Some v \<Rightarrow> v),
                maxTasksPerIteration :=
                  (case cfg_maxTasksPerIteration cfg of
                     None \<Rightarrow> MAX_TASKS_PER_ITERATION | Some v \<Rightarrow> v),
                ensureTasksRun :=
                  (case cfg_ensureTasksRun cfg of None \<Rightarrow> False | Some v \<Rightarrow> v),
                queueMicrotask := None\<rparr>
     in if isBrowser w1 \<and> ensureTasksRun w1 then
          (let w2 = addEventListener ''visibilitychange'' HiddenArrow True w1
           in if isSafari w2
              then addEventListener ''beforeunload'' BoundRunTasksImmediately True w2
              else w2)
        else w1)"

definition hasPendingTasks :: "World \<Rightarrow> bool" where
  "hasPendingTasks w = (length (taskQueue w) > 0)"

definition getState :: "World \<Rightarrow> State option" where
  "getState w = state w"

definition cancelScheduledRun :: "World \<Rightarrow> World" where
  "cancelScheduledRun w =
    (let w1 = (case idleCallbackHandle w of
                 None \<Rightarrow> w
               | Some h \<Rightarrow> if h \<noteq> 0 then cIC h w else w)
     in w1\<lparr>idleCallbackHandle := None\<rparr>)"

definition scheduleTasksToRun :: "World \<Rightarrow> World" where
  "scheduleTasksToRun w =
    (if isBrowser w \<and> ensureTasksRun w \<and> document_visibilityState w = Hidden then
       (let w1 = (case queueMicrotask w of
                    None \<Rightarrow> w\<lparr>queueMicrotask := Some (createQueueMicrotask w)\<rparr>
                  | Some q \<Rightarrow> w)
        in call_queueMicrotask w1)
     else if truthy (idleCallbackHandle w) then w
     else (case rIC w of (handle, w1) \<Rightarrow> w1\<lparr>idleCallbackHandle := Some handle\<rparr>))"

text \<open>\<^verbatim>\<open>Array.prototype.push\<close>, \<^verbatim>\<open>unshift\<close> and \<^verbatim>\<open>shift\<close> on \<^verbatim>\<open>this.taskQueue\<close>.\<close>

definition push :: "TaskQueueItem \<Rightarrow> World \<Rightarrow> World" where
  "push item w = w\<lparr>taskQueue := taskQueue w @ [item]\<rparr>"

definition unshift :: "TaskQueueItem \<Rightarrow> World \<Rightarrow> World" where
  "unshift item w = w\<lparr>taskQueue := item # taskQueue w\<rparr>"

definition shift :: "World \<Rightarrow> TaskQueueItem option \<times> World" where
  "shift w = (case taskQueue w of
                [] \<Rightarrow> (None, w)
              | item # rest \<Rightarrow> (Some item, w\<lparr>taskQueue := rest\<rparr>))"

text \<open>\<^verbatim>\<open>options && options.minTaskTime\<close>: absent when either is.\<close>

definition options_minTaskTime :: "options option \<Rightarrow> real option" where
  "options_minTaskTime opts = (case opts of None \<Rightarrow> None | Some os \<Rightarrow> opt_minTaskTime os)"

definition handleTask ::
  "Task \<Rightarrow> (TaskQueueItem \<Rightarrow> World \<Rightarrow> World) \<Rightarrow> options option \<Rightarrow> World \<Rightarrow> World" where
  "handleTask tsk handleTaskQueueItem opts w =
    (let st = \<lparr>time = now w,
               visibilityState =
                 (if isBrowser w then document_visibilityState w else Visible)\<rparr>;
         mtt = max 0 (js_or (options_minTaskTime opts) (defaultMinTaskTime w));
         w1 = handleTaskQueueItem
                \<lparr>TaskQueueItem.state = st, task = tsk, minTaskTime = mtt\<rparr> w
     in scheduleTasksToRun w1)"

definition pushTask :: "Task \<Rightarrow> options option \<Rightarrow> World \<Rightarrow> World" where
  "pushTask tsk opts w = handleTask tsk push opts w"

definition unshiftTask :: "Task \<Rightarrow> options option \<Rightarrow> World \<Rightarrow> World" where
  "unshiftTask tsk opts w = handleTask tsk unshift opts w"

text \<open>
  The call \<^verbatim>\<open>task(state)\<close>: the body runs for its duration and sees the queue's
  current \<^verbatim>\<open>getState()\<close>; the call either returns or throws.
\<close>

definition invoke :: "Task \<Rightarrow> State \<Rightarrow> World \<Rightarrow> (error + unit) \<times> World" where
  "invoke tsk st w =
    (let w1 = w\<lparr>clock := clock w + duration tsk,
                trace := trace w @
                  [\<lparr>called = tsk, argument = st, observed = getState w\<rparr>]\<rparr>
     in (case throws tsk of None \<Rightarrow> Inr () | Some e \<Rightarrow> Inl e, w1))"

text \<open>The body of the loop of \<^verbatim>\<open>runTasks\<close> for a dequeued item, with its try and catch.\<close>

definition run_item :: "TaskQueueItem \<Rightarrow> World \<Rightarrow> (error + unit) \<times> World" where
  "run_item taskQueueItem w =
    (let w1 = w\<lparr>state := Some (TaskQueueItem.state taskQueueItem)\<rparr>;
         (r, w2) = invoke (task taskQueueItem) (TaskQueueItem.state taskQueueItem) w1;
         w3 = (case r of Inl err \<Rightarrow> console_error err w2 | Inr u \<Rightarrow> w2)
     in (Inr (), w3\<lparr>state := None\<rparr>))"

text \<open>
  The condition of the \<^verbatim>\<open>while\<close> loop. \<^verbatim>\<open>this.taskQueue[0]\<close> is read only when the
  queue is not empty.
\<close>

definition loop_guard :: "IdleDeadline option \<Rightarrow> nat \<Rightarrow> World \<Rightarrow> bool" where
  "loop_guard deadline tasksProcessed w =
    (hasPendingTasks w \<and>
     int tasksProcessed < maxTasksPerIteration w \<and>
     \<not> shouldYield deadline (Some (minTaskTime (taskQueue w ! 0))) (now w))"

text \<open>
  The loop of \<^verbatim>\<open>runTasks\<close>. Every pass that dequeues an item counts one more processed
  task, so the loop ends when the cap is reached, if not before.
\<close>

function runTasks_loop ::
  "IdleDeadline option \<Rightarrow> nat \<Rightarrow> World \<Rightarrow> (error + unit) \<times> World" where
  "runTasks_loop deadline tasksProcessed w =
    (if loop_guard deadline tasksProcessed w then
       (case shift w of
          (Some taskQueueItem, w1) \<Rightarrow>
            (case run_item taskQueueItem w1 of
               (Inl e, w2) \<Rightarrow> (Inl e, w2)
             | (Inr u, w2) \<Rightarrow> runTasks_loop deadline (tasksProcessed + 1) w2)
        | (None, w1) \<Rightarrow> runTasks_loop deadline tasksProcessed w1)
     else (Inr (), w))"
  by pat_completeness auto
termination runTasks_loop
  by (relation "measure (\<lambda>(d, n, w). nat (maxTasksPerIteration w - int n))")
     (auto simp: loop_guard_def shift_def run_item_def invoke_def console_error_def
        hasPendingTasks_def Let_def split: list.splits sum.splits option.splits prod.splits)

declare runTasks_loop.simps [simp del]

text \<open>
  \<^verbatim>\<open>runTasks\<close> returns normally or with an error that escaped it; the second component is
  the page and queue it leaves.
\<close>

definition runTasks :: "IdleDeadline option \<Rightarrow> World \<Rightarrow> (error + unit) \<times> World" where
  "runTasks deadline w =
    (let w1 = cancelScheduledRun w
     in if \<not> isProcessing w1 then
          (case runTasks_loop deadline 0 (w1\<lparr>isProcessing := True\<rparr>) of
             (Inl e, w2) \<Rightarrow> (Inl e, w2)
           | (Inr u, w2) \<Rightarrow>
               (let w3 = w2\<lparr>isProcessing := False\<rparr>
                in (Inr (), if hasPendingTasks w3 then scheduleTasksToRun w3 else w3)))
        else (Inr (), w1))"

definition runTasksImmediately :: "World \<Rightarrow> (error + unit) \<times> World" where
  "runTasksImmediately w = runTasks None w"

definition clearPendingTasks :: "World \<Rightarrow> World" where
  "clearPendingTasks w = cancelScheduledRun (w\<lparr>taskQueue := []\<rparr>)"

definition destroy :: "World \<Rightarrow> World" where
  "destroy w =
    (let w1 = cancelScheduledRun (w\<lparr>taskQueue := []\<rparr>)
     in if isBrowser w1 \<and> ensureTasksRun w1 then
          (let w2 = removeEventListener ''visibilitychange'' BoundRunTasksImmediately True w1
           in if isSafari w2
              then removeEventListener ''beforeunload'' BoundRunTasksImmediately True w2
              else w2)
        else w1)"

subsection \<open>The page around the queue\<close>

text \<open>What the two registered functions do when the host calls them.\<close>

fun call_listener :: "listener \<Rightarrow> World \<Rightarrow> (error + unit) \<times> World" where
  "call_listener HiddenArrow w =
    (if document_visibilityState w = Hidden then runTasksImmediately w else (Inr (), w))"
| "call_listener BoundRunTasksImmediately w = runTasksImmediately w"

text \<open>The host calls the listeners registered for an event type one after the other.\<close>

fun call_listeners :: "(string \<times> listener \<times> bool) list \<Rightarrow> World \<Rightarrow> World" where
  "call_listeners [] w = w"
| "call_listeners ((type, callback, capture) # rs) w =
    call_listeners rs (snd (call_listener callback w))"

definition dispatchEvent :: "string \<Rightarrow> World \<Rightarrow> World" where
  "dispatchEvent type w =
    call_listeners (filter (\<lambda>r. fst r = type) (listeners w)) w"

text \<open>
  What can happen to a queue once it is constructed: a call of one of its public
  methods, the host running a pending idle callback (with the shim's deadline object,
  or with the host's own) or a queued microtask, the page changing its visibility, the
  page unloading, and time passing.
\<close>

datatype event =
    PushTask Task "options option"
  | UnshiftTask Task "options option"
  | RunTasksImmediately
  | ClearPendingTasks
  | Destroy
  | IdleCallback nat IdleDeadline
  | Microtask
  | VisibilityChange visibility
  | BeforeUnload
  | Elapse real

fun step :: "event \<Rightarrow> World \<Rightarrow> World" where
  "step (PushTask tsk opts) w = pushTask tsk opts w"
| "step (UnshiftTask tsk opts) w = unshiftTask tsk opts w"
| "step RunTasksImmediately w = snd (runTasksImmediately w)"
| "step ClearPendingTasks w = clearPendingTasks w"
| "step Destroy w = destroy w"
| "step (IdleCallback handle host_deadline) w =
    (case find (\<lambda>r. fst r = handle) (idle_requests w) of
       None \<Rightarrow> w
     | Some (h, shim_deadline) \<Rightarrow>
         snd (runTasks
                (Some (case shim_deadline of None \<Rightarrow> host_deadline | Some d \<Rightarrow> d))
                (w\<lparr>idle_requests := filter (\<lambda>r. fst r \<noteq> handle) (idle_requests w)\<rparr>)))"
| "step Microtask w =
    (case microtasks w of
       0 \<Rightarrow> w
     | Suc n \<Rightarrow> snd (runTasks None (w\<lparr>microtasks := n\<rparr>)))"
| "step (VisibilityChange v) w =
    dispatchEvent ''visibilitychange'' (w\<lparr>document_visibilityState := v\<rparr>)"
| "step BeforeUnload w = dispatchEvent ''beforeunload'' w"
| "step (Elapse dt) w = w\<lparr>clock := clock w + dt\<rparr>"

fun run :: "event list \<Rightarrow> World \<Rightarrow> World" where
  "run [] w = w"
| "run (e # es) w = run es (step e w)"

section \<open>Notions for stating the properties\<close>

text \<open>The scheduling requests of the queue that the host still holds.\<close>

definition outstanding_requests :: "World \<Rightarrow> nat" where
  "outstanding_requests w = length (idle_requests w) + microtasks w"

text \<open>What a list of queue items leaves in the trace when each is run once, in order.\<close>

definition invocations :: "TaskQueueItem list \<Rightarrow> invocation list" where
  "invocations items =
    map (\<lambda>i. \<lparr>called = task i, argument = TaskQueueItem.state i,
              observed = Some (TaskQueueItem.state i)\<rparr>) items"

text \<open>The errors that the tasks of a list of queue items throw, in order.\<close>

definition thrown :: "TaskQueueItem list \<Rightarrow> error list" where
  "thrown items = List.map_filter (\<lambda>i. throws (task i)) items"

text \<open>Running the loop body on each item of a list, in order.\<close>

fun run_items :: "TaskQueueItem list \<Rightarrow> World \<Rightarrow> World" where
  "run_items [] w = w"
| "run_items (i # rest) w = run_items rest (snd (run_item i w))"

text \<open>The end of \<^verbatim>\<open>runTasks\<close>: what is left over is scheduled again.\<close>

definition reschedule :: "World \<Rightarrow> World" where
  "reschedule w = (if hasPendingTasks w then scheduleTasksToRun w else w)"

text \<open>The \<^verbatim>\<open>State\<close> that \<^verbatim>\<open>handleTask\<close> captures for a new item.\<close>

definition stamp :: "World \<Rightarrow> State" where
  "stamp w = \<lparr>time = now w,
              visibilityState = (if isBrowser w then document_visibilityState w else Visible)\<rparr>"

text \<open>The item that \<^verbatim>\<open>handleTask\<close> builds.\<close>

definition new_item :: "Task \<Rightarrow> options option \<Rightarrow> World \<Rightarrow> TaskQueueItem" where
  "new_item tsk opts w =
    \<lparr>TaskQueueItem.state = stamp w, task = tsk,
     minTaskTime = max 0 (js_or (options_minTaskTime opts) (defaultMinTaskTime w))\<rparr>"

text \<open>A series of \<^verbatim>\<open>pushTask\<close> calls.\<close>

fun push_all :: "(Task \<times> options option) list \<Rightarrow> World \<Rightarrow> World" where
  "push_all [] w = w"
| "push_all ((tsk, opts) # rest) w = push_all rest (pushTask tsk opts w)"

text \<open>Whether a list of events holds only calls of \<^verbatim>\<open>pushTask\<close> and \<^verbatim>\<open>unshiftTask\<close>.\<close>

fun enqueues_only :: "event list \<Rightarrow> bool" where
  "enqueues_only [] = True"
| "enqueues_only (PushTask tsk opts # es) = enqueues_only es"
| "enqueues_only (UnshiftTask tsk opts # es) = enqueues_only es"
| "enqueues_only (e # es) = False"

text \<open>The tasks given to \<^verbatim>\<open>pushTask\<close>, and those given to \<^verbatim>\<open>unshiftTask\<close>, in call order.\<close>

fun pushed :: "event list \<Rightarrow> Task list" where
  "pushed [] = []"
| "pushed (PushTask tsk opts # es) = tsk # pushed es"
| "pushed (e # es) = pushed es"

fun unshifted :: "event list \<Rightarrow> Task list" where
  "unshifted [] = []"
| "unshifted (UnshiftTask tsk opts # es) = tsk # unshifted es"
| "unshifted (e # es) = unshifted es"

text \<open>
  The pending idle callbacks agree with \<^verbatim>\<open>idleCallbackHandle\<close>: there is none, or there
  is one and the field holds its handle.
\<close>

definition idle_ok :: "World \<Rightarrow> bool" where
  "idle_ok w =
    (length (idle_requests w) \<le> 1 \<and>
     (\<forall>r \<in> set (idle_requests w). fst r \<noteq> 0 \<and> idleCallbackHandle w = Some (fst r)))"

text \<open>Some constructor arguments, for the examples.\<close>

definition default_config :: config where
  "default_config =
    \<lparr>cfg_ensureTasksRun = None, cfg_defaultMinTaskTime = None,
     cfg_maxTasksPerIteration = None\<rparr>"

definition ensure_config :: config where
  "ensure_config =
    \<lparr>cfg_ensureTasksRun = Some True, cfg_defaultMinTaskTime = None,
     cfg_maxTasksPerIteration = None\<rparr>"

definition capped_config :: "int \<Rightarrow> config" where
  "capped_config n =
    \<lparr>cfg_ensureTasksRun = None, cfg_defaultMinTaskTime = None,
     cfg_maxTasksPerIteration = Some n\<rparr>"

text \<open>A page in which nothing has happened yet, for the examples.\<close>

definition page :: "bool \<Rightarrow> bool \<Rightarrow> visibility \<Rightarrow> World" where
  "page browser safari v =
    \<lparr>isBrowser = browser, isSafari = safari, has_requestIdleCallback = browser,
     has_queueMicrotask = browser, has_native_Promise = True,
     document_visibilityState = v, clock = 0, listeners = [], last_handle = 0,
     idle_requests = [], microtasks = 0, console = [], trace = [],
     idleCallbackHandle = None, taskQueue = [], isProcessing = False, state = None,
     defaultMinTaskTime = 0, maxTasksPerIteration = 0, ensureTasksRun = False,
     queueMicrotask = None\<rparr>"

section \<open>Lemmas\<close>

subsection \<open>What the private methods leave alone\<close>

lemma cancelScheduledRun_frame [simp]:
  "trace (cancelScheduledRun w) = trace w"
  "console (cancelScheduledRun w) = console w"
  "clock (cancelScheduledRun w) = clock w"
  "taskQueue (cancelScheduledRun w) = taskQueue w"
  "state (cancelScheduledRun w) = state w"
  "isProcessing (cancelScheduledRun w) = isProcessing w"
  "listeners (cancelScheduledRun w) = listeners w"
  "microtasks (cancelScheduledRun w) = microtasks w"
  "maxTasksPerIteration (cancelScheduledRun w) = maxTasksPerIteration w"
  "defaultMinTaskTime (cancelScheduledRun w) = defaultMinTaskTime w"
  "ensureTasksRun (cancelScheduledRun w) = ensureTasksRun w"
  "isBrowser (cancelScheduledRun w) = isBrowser w"
  "isSafari (cancelScheduledRun w) = isSafari w"
  "document_visibilityState (cancelScheduledRun w) = document_visibilityState w"
  "idleCallbackHandle (cancelScheduledRun w) = None"
  by (simp_all add: cancelScheduledRun_def cIC_def cancelIdleCallback_def
        cancelIdleCallbackShim_def clearTimeout_def Let_def split: option.split)

lemma scheduleTasksToRun_frame [simp]:
  "trace (scheduleTasksToRun w) = trace w"
  "console (scheduleTasksToRun w) = console w"
  "clock (scheduleTasksToRun w) = clock w"
  "taskQueue (scheduleTasksToRun w) = taskQueue w"
  "state (scheduleTasksToRun w) = state w"
  "isProcessing (scheduleTasksToRun w) = isProcessing w"
  "listeners (scheduleTasksToRun w) = listeners w"
  "maxTasksPerIteration (scheduleTasksToRun w) = maxTasksPerIteration w"
  "defaultMinTaskTime (scheduleTasksToRun w) = defaultMinTaskTime w"
  "ensureTasksRun (scheduleTasksToRun w) = ensureTasksRun w"
  "isBrowser (scheduleTasksToRun w) = isBrowser w"
  "isSafari (scheduleTasksToRun w) = isSafari w"
  "document_visibilityState (scheduleTasksToRun w) = document_visibilityState w"
  by (simp_all add: scheduleTasksToRun_def call_queueMicrotask_def rIC_def
        requestIdleCallback_def requestIdleCallbackShim_def Let_def
        split: option.split prod.split)

lemma run_item_eq:
  "run_item i w =
    (Inr (), w\<lparr>clock := clock w + duration (task i),
               trace := trace w @ invocations [i],
               console := console w @ thrown [i],
               state := None\<rparr>)"
  by (cases "throws (task i)")
     (simp_all add: run_item_def invoke_def console_error_def getState_def invocations_def
        thrown_def List.map_filter_simps Let_def)

lemma run_items_eq:
  "run_items items w =
    w\<lparr>clock := clock w + sum_list (map (\<lambda>i. duration (task i)) items),
      trace := trace w @ invocations items,
      console := console w @ thrown items,
      state := (if items = [] then state w else None)\<rparr>"
proof (induction items arbitrary: w)
  case Nil
  show ?case by (simp add: invocations_def thrown_def List.map_filter_simps)
next
  case (Cons i rest)
  show ?case
    by (simp add: Cons.IH run_item_eq invocations_def thrown_def List.map_filter_simps
          add.assoc split: option.split)
qed

lemma loop_stop:
  "\<not> loop_guard d n w \<Longrightarrow> runTasks_loop d n w = (Inr (), w)"
  by (subst runTasks_loop.simps) simp

lemma loop_step:
  "loop_guard d n w \<Longrightarrow> taskQueue w = i # rest \<Longrightarrow>
   runTasks_loop d n w = runTasks_loop d (Suc n) (run_items [i] w\<lparr>taskQueue := rest\<rparr>)"
  apply (subst runTasks_loop.simps)
  apply (simp add: shift_def run_item_eq)
  apply (rule arg_cong[where f = "runTasks_loop d (Suc n)"])
  apply simp
  done

lemma loop_char:
  "\<exists>k. k \<le> length (taskQueue w) \<and> (k = 0 \<or> int (n + k) \<le> maxTasksPerIteration w) \<and>
       runTasks_loop d n w =
         (Inr (), run_items (take k (taskQueue w)) w\<lparr>taskQueue := drop k (taskQueue w)\<rparr>)"
proof (induction "taskQueue w" arbitrary: n w)
  case Nil
  then have "\<not> loop_guard d n w" by (simp add: loop_guard_def hasPendingTasks_def)
  then show ?case using Nil by (intro exI[of _ 0]) (simp add: loop_stop)
next
  case (Cons i rest)
  show ?case
  proof (cases "loop_guard d n w")
    case False
    then show ?thesis by (intro exI[of _ 0]) (simp add: loop_stop)
  next
    case True
    let ?w = "run_items [i] w\<lparr>taskQueue := rest\<rparr>"
    have q: "taskQueue w = i # rest" using Cons.hyps(2) by simp
    have "rest = taskQueue ?w" by simp
    from Cons.hyps(1)[OF this, of "Suc n"] obtain k where
      k: "k \<le> length rest" "k = 0 \<or> int (Suc n + k) \<le> maxTasksPerIteration w"
         "runTasks_loop d (Suc n) ?w =
            (Inr (), run_items (take k rest) ?w\<lparr>taskQueue := drop k rest\<rparr>)"
      by (auto simp: run_item_eq)
    have cap: "int (Suc n) \<le> maxTasksPerIteration w"
      using True by (simp add: loop_guard_def)
    show ?thesis
      using k cap q
      by (intro exI[of _ "Suc k"]) (auto simp: loop_step[OF True q] run_items_eq run_item_eq
            invocations_def thrown_def List.map_filter_simps add.assoc split: option.split)
  qed
qed

lemma loop_None:
  "runTasks_loop None n w =
     (Inr (), run_items (take (nat (maxTasksPerIteration w - int n)) (taskQueue w)) w
                \<lparr>taskQueue := drop (nat (maxTasksPerIteration w - int n)) (taskQueue w)\<rparr>)"
proof (induction "taskQueue w" arbitrary: n w)
  case Nil
  then have "\<not> loop_guard None n w" by (simp add: loop_guard_def hasPendingTasks_def)
  then show ?case using Nil[symmetric] by (simp add: loop_stop)
next
  case (Cons i rest)
  have q: "taskQueue w = i # rest" using Cons.hyps(2) by simp
  show ?case
  proof (cases "loop_guard None n w")
    case False
    then have "nat (maxTasksPerIteration w - int n) = 0"
      using q by (simp add: loop_guard_def hasPendingTasks_def shouldYield_def)
    then show ?thesis using False by (simp add: loop_stop)
  next
    case True
    let ?w = "run_items [i] w\<lparr>taskQueue := rest\<rparr>"
    have r: "rest = taskQueue ?w" by simp
    have cap: "int n < maxTasksPerIteration w"
      using True by (simp add: loop_guard_def)
    then obtain m where m: "nat (maxTasksPerIteration w - int n) = Suc m"
       "nat (maxTasksPerIteration w - int (Suc n)) = m"
      by (cases "nat (maxTasksPerIteration w - int n)") auto
    show ?thesis
      using Cons.hyps(1)[OF r, of "Suc n"] m q
      by (simp add: loop_step[OF True q] run_items_eq run_item_eq
            invocations_def thrown_def List.map_filter_simps add.assoc split: option.split)
  qed
qed

lemma reschedule_frame [simp]:
  "trace (reschedule w) = trace w"
  "console (reschedule w) = console w"
  "clock (reschedule w) = clock w"
  "taskQueue (reschedule w) = taskQueue w"
  "state (reschedule w) = state w"
  "isProcessing (reschedule w) = isProcessing w"
  "listeners (reschedule w) = listeners w"
  "maxTasksPerIteration (reschedule w) = maxTasksPerIteration w"
  "defaultMinTaskTime (reschedule w) = defaultMinTaskTime w"
  "ensureTasksRun (reschedule w) = ensureTasksRun w"
  "isBrowser (reschedule w) = isBrowser w"
  "isSafari (reschedule w) = isSafari w"
  "document_visibilityState (reschedule w) = document_visibilityState w"
  by (simp_all add: reschedule_def)

lemma flag_roundtrip:
  "\<not> isProcessing w \<Longrightarrow>
   (run_items items (w\<lparr>isProcessing := True\<rparr>))\<lparr>taskQueue := q, isProcessing := False\<rparr>
     = (run_items items w)\<lparr>taskQueue := q\<rparr>"
  by (rule World.equality) (simp_all add: run_items_eq)

lemma runTasks_processing:
  "isProcessing w \<Longrightarrow> runTasks d w = (Inr (), cancelScheduledRun w)"
  by (simp add: runTasks_def Let_def)

lemma runTasks_char:
  assumes "\<not> isProcessing w"
  shows "\<exists>k. k \<le> length (taskQueue w) \<and> (k = 0 \<or> int k \<le> maxTasksPerIteration w) \<and>
     runTasks d w =
       (Inr (), reschedule (run_items (take k (taskQueue w)) (cancelScheduledRun w)
                              \<lparr>taskQueue := drop k (taskQueue w)\<rparr>))"
proof -
  let ?w1 = "cancelScheduledRun w"
  let ?w = "?w1\<lparr>isProcessing := True\<rparr>"
  from loop_char[of ?w 0 d] obtain k where
    k: "k \<le> length (taskQueue w)" "k = 0 \<or> int k \<le> maxTasksPerIteration w"
       "runTasks_loop d 0 ?w =
          (Inr (), run_items (take k (taskQueue w)) ?w\<lparr>taskQueue := drop k (taskQueue w)\<rparr>)"
    by auto
  have np: "\<not> isProcessing ?w1" using assms by simp
  show ?thesis
    using k(1,2)
    by (intro exI[of _ k])
       (simp add: runTasks_def Let_def assms k(3) flag_roundtrip[OF np] reschedule_def)
qed

lemma runTasks_None:
  assumes "\<not> isProcessing w"
  shows "runTasks None w =
       (Inr (), reschedule
           (run_items (take (nat (maxTasksPerIteration w)) (taskQueue w)) (cancelScheduledRun w)
              \<lparr>taskQueue := drop (nat (maxTasksPerIteration w)) (taskQueue w)\<rparr>))"
proof -
  have np: "\<not> isProcessing (cancelScheduledRun w)" using assms by simp
  show ?thesis
    by (simp add: runTasks_def Let_def assms loop_None flag_roundtrip[OF np] reschedule_def)
qed

lemma runTasks_no_escape: "fst (runTasks d w) = Inr ()"
proof (cases "isProcessing w")
  case True
  then show ?thesis by (simp add: runTasks_processing)
next
  case False
  from runTasks_char[OF this, of d] show ?thesis by auto
qed

lemma loop_yield_at:
  assumes "p < length (taskQueue w)"
      and "shouldYield d (Some (minTaskTime (taskQueue w ! p)))
             (now w + sum_list (map (\<lambda>i. duration (task i)) (take p (taskQueue w))))"
  shows "\<exists>k\<le>p. runTasks_loop d n w =
           (Inr (), run_items (take k (taskQueue w)) w\<lparr>taskQueue := drop k (taskQueue w)\<rparr>)"
  using assms
proof (induction "taskQueue w" arbitrary: n w p)
  case Nil
  then show ?case by simp
next
  case (Cons i rest)
  have q: "taskQueue w = i # rest" using Cons.hyps(2) by simp
  show ?case
  proof (cases "loop_guard d n w")
    case False
    then show ?thesis by (intro exI[of _ 0]) (simp add: loop_stop)
  next
    case True
    have "p \<noteq> 0"
    proof
      assume "p = 0"
      then show False using True Cons.prems(2) q by (simp add: loop_guard_def)
    qed
    then obtain p' where p: "p = Suc p'" by (cases p) auto
    let ?w = "run_items [i] w\<lparr>taskQueue := rest\<rparr>"
    have r: "rest = taskQueue ?w" by simp
    have p1: "p' < length (taskQueue ?w)" using Cons.prems(1) q p by simp
    have p2: "shouldYield d (Some (minTaskTime (taskQueue ?w ! p')))
             (now ?w + sum_list (map (\<lambda>i. duration (task i)) (take p' (taskQueue ?w))))"
      using Cons.prems(2) q p by (simp add: now_def run_item_eq add.assoc)
    from Cons.hyps(1)[OF r p1 p2, of "Suc n"] obtain k where
      k: "k \<le> p'"
         "runTasks_loop d (Suc n) ?w =
            (Inr (), run_items (take k rest) ?w\<lparr>taskQueue := drop k rest\<rparr>)"
      by auto
    show ?thesis
      using k p q
      by (intro exI[of _ "Suc k"]) (auto simp: loop_step[OF True q] run_items_eq run_item_eq
            invocations_def thrown_def List.map_filter_simps add.assoc split: option.split)
  qed
qed

lemma runTasks_yield_at:
  assumes "p < length (taskQueue w)"
      and "shouldYield d (Some (minTaskTime (taskQueue w ! p)))
             (now w + sum_list (map (\<lambda>i. duration (task i)) (take p (taskQueue w))))"
  shows "\<exists>k\<le>p. runTasks d w =
           (Inr (), if isProcessing w then cancelScheduledRun w
              else scheduleTasksToRun
                     (run_items (take k (taskQueue w)) (cancelScheduledRun w)
                        \<lparr>taskQueue := drop k (taskQueue w)\<rparr>))"
proof (cases "isProcessing w")
  case True
  then show ?thesis by (intro exI[of _ 0]) (simp add: runTasks_processing)
next
  case False
  let ?w = "(cancelScheduledRun w)\<lparr>isProcessing := True\<rparr>"
  have a1: "p < length (taskQueue ?w)" using assms(1) by simp
  have a2: "shouldYield d (Some (minTaskTime (taskQueue ?w ! p)))
             (now ?w + sum_list (map (\<lambda>i. duration (task i)) (take p (taskQueue ?w))))"
    using assms(2) by (simp add: now_def)
  from loop_yield_at[OF a1 a2, of 0] obtain k where
    k: "k \<le> p"
       "runTasks_loop d 0 ?w =
          (Inr (), run_items (take k (taskQueue w)) ?w\<lparr>taskQueue := drop k (taskQueue w)\<rparr>)"
    by auto
  have np: "\<not> isProcessing (cancelScheduledRun w)" using False by simp
  have ne: "drop k (taskQueue w) \<noteq> []" using k(1) assms(1) by simp
  show ?thesis
    using k(1) ne
    by (intro exI[of _ k])
       (simp add: runTasks_def Let_def False k(2) flag_roundtrip[OF np] hasPendingTasks_def)
qed

subsection \<open>Enqueueing and draining\<close>

lemma handleTask_eq:
  "pushTask tsk opts w = scheduleTasksToRun (w\<lparr>taskQueue := taskQueue w @ [new_item tsk opts w]\<rparr>)"
  "unshiftTask tsk opts w = scheduleTasksToRun (w\<lparr>taskQueue := new_item tsk opts w # taskQueue w\<rparr>)"
  by (simp_all add: pushTask_def unshiftTask_def handleTask_def push_def unshift_def
        new_item_def stamp_def Let_def)

lemma enqueue_frame [simp]:
  "trace (pushTask tsk opts w) = trace w"
  "trace (unshiftTask tsk opts w) = trace w"
  "isProcessing (pushTask tsk opts w) = isProcessing w"
  "isProcessing (unshiftTask tsk opts w) = isProcessing w"
  "state (pushTask tsk opts w) = state w"
  "state (unshiftTask tsk opts w) = state w"
  "maxTasksPerIteration (pushTask tsk opts w) = maxTasksPerIteration w"
  "maxTasksPerIteration (unshiftTask tsk opts w) = maxTasksPerIteration w"
  "new_item t' o' (pushTask tsk opts w) = new_item t' o' w"
  "new_item t' o' (unshiftTask tsk opts w) = new_item t' o' w"
  by (simp_all add: handleTask_eq new_item_def stamp_def now_def)

lemma push_all_frame [simp]:
  "trace (push_all ts w) = trace w"
  "isProcessing (push_all ts w) = isProcessing w"
  "state (push_all ts w) = state w"
  "maxTasksPerIteration (push_all ts w) = maxTasksPerIteration w"
  by (induction ts w rule: push_all.induct) simp_all

lemma push_all_queue:
  "taskQueue (push_all ts w) = taskQueue w @ map (\<lambda>(tsk, opts). new_item tsk opts w) ts"
  by (induction ts w rule: push_all.induct) (simp_all add: handleTask_eq(1)[THEN arg_cong[where f=taskQueue]])

lemma runTasks_None_fields:
  assumes "\<not> isProcessing w"
  shows "taskQueue (snd (runTasks None w)) = drop (nat (maxTasksPerIteration w)) (taskQueue w)"
    and "trace (snd (runTasks None w)) =
           trace w @ invocations (take (nat (maxTasksPerIteration w)) (taskQueue w))"
    and "console (snd (runTasks None w)) =
           console w @ thrown (take (nat (maxTasksPerIteration w)) (taskQueue w))"
  by (simp_all add: runTasks_None[OF assms] run_items_eq)

lemma runTasks_fields:
  "\<exists>k. k \<le> length (taskQueue w) \<and>
       (k = 0 \<or> \<not> isProcessing w \<and> int k \<le> maxTasksPerIteration w) \<and>
       taskQueue (snd (runTasks d w)) = drop k (taskQueue w) \<and>
       trace (snd (runTasks d w)) = trace w @ invocations (take k (taskQueue w)) \<and>
       console (snd (runTasks d w)) = console w @ thrown (take k (taskQueue w)) \<and>
       state (snd (runTasks d w)) = (if k = 0 then state w else None) \<and>
       isProcessing (snd (runTasks d w)) = isProcessing w"
proof (cases "isProcessing w")
  case True
  then show ?thesis
    by (intro exI[of _ 0]) (simp add: runTasks_processing invocations_def thrown_def
          List.map_filter_simps)
next
  case False
  from runTasks_char[OF this, of d] obtain k where
    "k \<le> length (taskQueue w)" "k = 0 \<or> int k \<le> maxTasksPerIteration w"
    "runTasks d w =
       (Inr (), reschedule (run_items (take k (taskQueue w)) (cancelScheduledRun w)
                              \<lparr>taskQueue := drop k (taskQueue w)\<rparr>))"
    by blast
  then show ?thesis using False
    by (intro exI[of _ k]) (auto simp: run_items_eq)
qed

lemma invocations_simps [simp]:
  "invocations [] = []"
  "invocations (i # rest) =
     \<lparr>called = task i, argument = TaskQueueItem.state i,
      observed = Some (TaskQueueItem.state i)\<rparr> # invocations rest"
  "invocations (xs @ ys) = invocations xs @ invocations ys"
  "map called (invocations xs) = map task xs"
  "length (invocations xs) = length xs"
  by (simp_all add: invocations_def)

lemma scheduleTasksToRun_outstanding:
  "\<not> truthy (idleCallbackHandle w) \<Longrightarrow> 0 < outstanding_requests (scheduleTasksToRun w)"
  by (simp add: scheduleTasksToRun_def outstanding_requests_def call_queueMicrotask_def
        rIC_def requestIdleCallback_def requestIdleCallbackShim_def Let_def
        split: option.split)

lemma constructor_fields [simp]:
  "taskQueue (constructor cfg w) = []"
  "isProcessing (constructor cfg w) = False"
  "state (constructor cfg w) = None"
  "idleCallbackHandle (constructor cfg w) = None"
  "trace (constructor cfg w) = trace w"
  "console (constructor cfg w) = console w"
  "idle_requests (constructor cfg w) = idle_requests w"
  "microtasks (constructor cfg w) = microtasks w"
  "maxTasksPerIteration (constructor cfg w) =
     (case cfg_maxTasksPerIteration cfg of None \<Rightarrow> MAX_TASKS_PER_ITERATION | Some v \<Rightarrow> v)"
  by (simp_all add: constructor_def addEventListener_def Let_def)

lemma thrown_simps [simp]:
  "thrown [] = []"
  "thrown (i # rest) = (case throws (task i) of None \<Rightarrow> thrown rest | Some e \<Rightarrow> e # thrown rest)"
  by (simp_all add: thrown_def List.map_filter_simps split: option.split)

lemma new_item_task [simp]: "task (new_item tsk opts w) = tsk"
  by (simp add: new_item_def)

lemma enqueue_queue [simp]:
  "taskQueue (pushTask tsk opts w) = taskQueue w @ [new_item tsk opts w]"
  "taskQueue (unshiftTask tsk opts w) = new_item tsk opts w # taskQueue w"
  by (simp_all add: handleTask_eq)

lemma enqueues_queue:
  "enqueues_only es \<Longrightarrow>
   map task (taskQueue (run es w)) = rev (unshifted es) @ map task (taskQueue w) @ pushed es"
  by (induction es arbitrary: w rule: enqueues_only.induct) simp_all

lemma enqueues_frame:
  "enqueues_only es \<Longrightarrow>
   trace (run es w) = trace w \<and> isProcessing (run es w) = isProcessing w \<and>
   maxTasksPerIteration (run es w) = maxTasksPerIteration w"
  by (induction es arbitrary: w rule: enqueues_only.induct) simp_all

lemma runTasksImmediately_all:
  assumes "\<not> isProcessing w" "int (length (taskQueue w)) \<le> maxTasksPerIteration w"
  shows "fst (runTasksImmediately w) = Inr ()"
    and "taskQueue (snd (runTasksImmediately w)) = []"
    and "trace (snd (runTasksImmediately w)) = trace w @ invocations (taskQueue w)"
    and "console (snd (runTasksImmediately w)) = console w @ thrown (taskQueue w)"
  using assms
  by (simp_all add: runTasksImmediately_def runTasks_no_escape runTasks_None_fields)

subsection \<open>At most one pending idle callback\<close>

lemma idle_ok_iff:
  "idle_ok w \<longleftrightarrow>
     idle_requests w = [] \<or>
     (\<exists>h d. h \<noteq> 0 \<and> idleCallbackHandle w = Some h \<and> idle_requests w = [(h, d)])"
proof (cases "idle_requests w")
  case Nil
  then show ?thesis by (simp add: idle_ok_def)
next
  case (Cons r rs)
  then show ?thesis by (cases rs; cases r) (auto simp: idle_ok_def)
qed

lemma idle_ok_cong:
  "idle_requests w' = idle_requests w \<Longrightarrow> idleCallbackHandle w' = idleCallbackHandle w \<Longrightarrow>
   idle_ok w' = idle_ok w"
  by (simp add: idle_ok_def)

lemma idle_ok_empty: "idle_requests w = [] \<Longrightarrow> idle_ok w"
  by (simp add: idle_ok_def)

lemma idle_ok_length: "idle_ok w \<Longrightarrow> length (idle_requests w) \<le> 1"
  by (simp add: idle_ok_def)

lemma idle_ok_cancel: "idle_ok w \<Longrightarrow> idle_requests (cancelScheduledRun w) = []"
  unfolding idle_ok_iff
  by (elim disjE exE conjE)
     (simp_all add: cancelScheduledRun_def cIC_def cancelIdleCallback_def
        cancelIdleCallbackShim_def clearTimeout_def Let_def split: option.split)

lemma idle_ok_schedule:
  assumes "idle_ok w"
  shows "idle_ok (scheduleTasksToRun w)"
proof (cases "isBrowser w \<and> ensureTasksRun w \<and> document_visibilityState w = Hidden")
  case True
  then have "idle_ok (scheduleTasksToRun w) = idle_ok w"
    by (intro idle_ok_cong)
       (simp_all add: scheduleTasksToRun_def call_queueMicrotask_def Let_def split: option.split)
  then show ?thesis using assms by simp
next
  case False
  note idle = False
  show ?thesis
  proof (cases "truthy (idleCallbackHandle w)")
    case True
    then show ?thesis using assms idle by (auto simp: scheduleTasksToRun_def)
  next
    case False
    then have "idle_requests w = []"
      using assms unfolding idle_ok_iff by (auto simp: truthy_def)
    then show ?thesis using False idle
      by (auto simp: idle_ok_def scheduleTasksToRun_def rIC_def requestIdleCallback_def
            requestIdleCallbackShim_def Let_def)
  qed
qed

lemma idle_ok_reschedule: "idle_ok w \<Longrightarrow> idle_ok (reschedule w)"
  by (simp add: reschedule_def idle_ok_schedule)

lemma idle_ok_runTasks:
  assumes "idle_ok w"
  shows "idle_ok (snd (runTasks d w))"
proof (cases "isProcessing w")
  case True
  then show ?thesis
    by (simp add: runTasks_processing idle_ok_empty idle_ok_cancel[OF assms])
next
  case False
  from runTasks_char[OF this, of d] obtain k where
    r: "runTasks d w =
       (Inr (), reschedule (run_items (take k (taskQueue w)) (cancelScheduledRun w)
                              \<lparr>taskQueue := drop k (taskQueue w)\<rparr>))"
    by blast
  have "idle_ok (run_items (take k (taskQueue w)) (cancelScheduledRun w)
                  \<lparr>taskQueue := drop k (taskQueue w)\<rparr>)"
    by (rule idle_ok_empty) (simp add: run_items_eq idle_ok_cancel[OF assms])
  then show ?thesis by (simp add: r idle_ok_reschedule)
qed

lemma idle_ok_enqueue:
  "idle_ok w \<Longrightarrow> idle_ok (pushTask tsk opts w)"
  "idle_ok w \<Longrightarrow> idle_ok (unshiftTask tsk opts w)"
  by (simp_all add: handleTask_eq idle_ok_schedule
        idle_ok_cong[of "w\<lparr>taskQueue := q\<rparr>" w for q])

lemma idle_ok_clear: "idle_ok w \<Longrightarrow> idle_ok (clearPendingTasks w)"
proof -
  assume "idle_ok w"
  then have "idle_ok (w\<lparr>taskQueue := []\<rparr>)" by (simp add: idle_ok_def)
  then show ?thesis by (simp add: clearPendingTasks_def idle_ok_empty idle_ok_cancel)
qed

lemma idle_ok_destroy: "idle_ok w \<Longrightarrow> idle_ok (destroy w)"
proof -
  assume "idle_ok w"
  then have "idle_ok (w\<lparr>taskQueue := []\<rparr>)" by (simp add: idle_ok_def)
  then have "idle_requests (cancelScheduledRun (w\<lparr>taskQueue := []\<rparr>)) = []"
    by (rule idle_ok_cancel)
  then show ?thesis
    by (intro idle_ok_empty) (simp add: destroy_def removeEventListener_def Let_def)
qed

lemma idle_ok_call_listener: "idle_ok w \<Longrightarrow> idle_ok (snd (call_listener l w))"
  by (cases l) (simp_all add: runTasksImmediately_def idle_ok_runTasks)

lemma idle_ok_call_listeners: "idle_ok w \<Longrightarrow> idle_ok (call_listeners rs w)"
  by (induction rs w rule: call_listeners.induct) (simp_all add: idle_ok_call_listener)

lemma idle_ok_filter:
  "idle_ok w \<Longrightarrow> idle_ok (w\<lparr>idle_requests := filter P (idle_requests w)\<rparr>)"
  unfolding idle_ok_iff by (elim disjE exE conjE) auto

lemma idle_ok_step: "idle_ok w \<Longrightarrow> idle_ok (step e w)"
proof (cases e)
  case (IdleCallback h d)
  assume a: "idle_ok w"
  show ?thesis
    by (simp add: IdleCallback idle_ok_runTasks idle_ok_filter[OF a] a
          split: option.split prod.split)
next
  case Microtask
  assume a: "idle_ok w"
  have "\<And>n. idle_ok (w\<lparr>microtasks := n\<rparr>)" using a by (simp add: idle_ok_def)
  then show ?thesis by (simp add: Microtask idle_ok_runTasks a split: nat.split)
next
  case (VisibilityChange v)
  assume a: "idle_ok w"
  have "idle_ok (w\<lparr>document_visibilityState := v\<rparr>)" using a by (simp add: idle_ok_def)
  then show ?thesis
    using idle_ok_call_listeners[of "w\<lparr>document_visibilityState := v\<rparr>"]
    by (simp add: VisibilityChange dispatchEvent_def)
next
  case BeforeUnload
  assume a: "idle_ok w"
  then show ?thesis by (simp add: BeforeUnload dispatchEvent_def idle_ok_call_listeners)
next
  case (Elapse dt)
  assume "idle_ok w"
  then show ?thesis by (simp add: Elapse idle_ok_def)
qed (simp_all add: idle_ok_enqueue idle_ok_clear idle_ok_destroy idle_ok_runTasks
       runTasksImmediately_def)

lemma idle_ok_run: "idle_ok w \<Longrightarrow> idle_ok (run es w)"
  by (induction es arbitrary: w) (simp_all add: idle_ok_step)

subsection \<open>The state of the running task\<close>

lemma runTasks_state: "state w = None \<Longrightarrow> state (snd (runTasks d w)) = None"
  using runTasks_fields[of w d] by auto

lemma runTasks_trace: "\<exists>items. trace (snd (runTasks d w)) = trace w @ invocations items"
  using runTasks_fields[of w d] by blast

lemma call_listener_state: "state w = None \<Longrightarrow> state (snd (call_listener l w)) = None"
  by (cases l) (simp_all add: runTasksImmediately_def runTasks_state)

lemma call_listener_trace:
  "\<exists>items. trace (snd (call_listener l w)) = trace w @ invocations items"
proof (cases "l = HiddenArrow \<and> document_visibilityState w \<noteq> Hidden")
  case True
  then have "trace (snd (call_listener l w)) = trace w @ invocations []" by auto
  then show ?thesis by blast
next
  case False
  then have "call_listener l w = runTasks None w"
    by (cases l) (simp_all add: runTasksImmediately_def)
  then show ?thesis by (simp add: runTasks_trace)
qed

lemma call_listeners_state: "state w = None \<Longrightarrow> state (call_listeners rs w) = None"
  by (induction rs w rule: call_listeners.induct) (simp_all add: call_listener_state)

lemma call_listeners_trace:
  "\<exists>items. trace (call_listeners rs w) = trace w @ invocations items"
proof (induction rs w rule: call_listeners.induct)
  case (1 w)
  have "trace (call_listeners [] w) = trace w @ invocations []" by simp
  then show ?case by blast
next
  case (2 type callback capture rs w)
  from call_listener_trace[of callback w] obtain xs where
    xs: "trace (snd (call_listener callback w)) = trace w @ invocations xs" by blast
  from "2.IH" obtain ys where
    ys: "trace (call_listeners rs (snd (call_listener callback w))) =
           trace (snd (call_listener callback w)) @ invocations ys" by blast
  have "trace (call_listeners ((type, callback, capture) # rs) w) =
          trace w @ invocations (xs @ ys)"
    by (simp add: xs ys)
  then show ?case by blast
qed

lemma step_state: "state w = None \<Longrightarrow> state (step e w) = None"
  by (cases e)
     (simp_all add: runTasksImmediately_def runTasks_state clearPendingTasks_def destroy_def
        removeEventListener_def dispatchEvent_def call_listeners_state Let_def
        split: option.split nat.split prod.split)

lemma step_trace: "\<exists>items. trace (step e w) = trace w @ invocations items"
proof -
  have none: "trace w' = trace w \<Longrightarrow> \<exists>items. trace w' = trace w @ invocations items" for w'
    by (intro exI[of _ "[]"]) simp
  have ex_nil: "\<exists>items. invocations items = []"
    by (intro exI[of _ "[]"]) simp
  show ?thesis
  proof (cases e)
    case RunTasksImmediately
    then show ?thesis by (simp add: runTasksImmediately_def runTasks_trace)
  next
    case (IdleCallback h d)
    show ?thesis
    proof (cases "find (\<lambda>r. fst r = h) (idle_requests w)")
      case None
      then show ?thesis using IdleCallback by (intro none) simp
    next
      case (Some r)
      then show ?thesis
        using IdleCallback
          runTasks_trace[of "Some (case snd r of None \<Rightarrow> d | Some d' \<Rightarrow> d')"
            "w\<lparr>idle_requests := filter (\<lambda>r. fst r \<noteq> h) (idle_requests w)\<rparr>"]
        by (cases r) simp
    qed
  next
    case Microtask
    show ?thesis
    proof (cases "microtasks w")
      case 0
      then show ?thesis using Microtask by (intro none) simp
    next
      case (Suc n)
      then show ?thesis
        using Microtask runTasks_trace[of None "w\<lparr>microtasks := n\<rparr>"] by simp
    qed
  next
    case (VisibilityChange v)
    then show ?thesis
      using call_listeners_trace[of _ "w\<lparr>document_visibilityState := v\<rparr>"]
      by (simp add: dispatchEvent_def)
  next
    case BeforeUnload
    then show ?thesis using call_listeners_trace[of _ w] by (simp add: dispatchEvent_def)
  qed (auto simp: ex_nil clearPendingTasks_def destroy_def removeEventListener_def Let_def)
qed

lemma run_state: "state w = None \<Longrightarrow> state (run es w) = None"
  by (induction es arbitrary: w) (simp_all add: step_state)

lemma run_trace: "\<exists>items. trace (run es w) = trace w @ invocations items"
proof (induction es arbitrary: w)
  case Nil
  have "trace (run [] w) = trace w @ invocations []" by simp
  then show ?case by blast
next
  case (Cons e es)
  from step_trace[of e w] obtain xs where xs: "trace (step e w) = trace w @ invocations xs"
    by blast
  from Cons[of "step e w"] obtain ys where
    ys: "trace (run es (step e w)) = trace (step e w) @ invocations ys" by blast
  have "trace (run (e # es) w) = trace w @ invocations (xs @ ys)" by (simp add: xs ys)
  then show ?case by blast
qed

section \<open>The claims\<close>

text \<open>The defining equations, for evaluating the model on a given page.\<close>

lemmas model_defs =
  DEFAULT_MIN_TASK_TIME_def MAX_TASKS_PER_ITERATION_def js_or_def truthy_def now_def
  supportsRequestIdleCallback_def requestIdleCallbackShim_def requestIdleCallback_def
  clearTimeout_def cancelIdleCallback_def cancelIdleCallbackShim_def rIC_def cIC_def
  createQueueMicrotask_def call_queueMicrotask_def addEventListener_def
  removeEventListener_def console_error_def shouldYield_def constructor_def
  hasPendingTasks_def getState_def cancelScheduledRun_def scheduleTasksToRun_def
  push_def unshift_def shift_def options_minTaskTime_def handleTask_def pushTask_def
  unshiftTask_def invoke_def run_item_def loop_guard_def runTasks_loop.simps runTasks_def
  runTasksImmediately_def clearPendingTasks_def destroy_def dispatchEvent_def
  outstanding_requests_def invocations_def thrown_def reschedule_def page_def
  default_config_def ensure_config_def capped_config_def stamp_def new_item_def Let_def

subsection \<open>The order of the queue\<close>

text \<open>
  Claim C1, as the code has it. After any series of \<^verbatim>\<open>pushTask\<close> and \<^verbatim>\<open>unshiftTask\<close>
  calls the queue holds, from the front: the tasks given to \<^verbatim>\<open>unshiftTask\<close>, the latest
  first; then what was queued before; then the tasks given to \<^verbatim>\<open>pushTask\<close>, the earliest
  first. So an unshifted task is ahead of every pushed task and also ahead of every task
  unshifted before it, and a drain that takes them all calls the unshifted tasks in the
  reverse of the order in which they were unshifted.
\<close>

theorem unshift_is_lifo:
  assumes "enqueues_only es"
  shows "map task (taskQueue (run es w)) =
           rev (unshifted es) @ map task (taskQueue w) @ pushed es \<and>
         (\<not> isProcessing w \<and> int (length (taskQueue (run es w))) \<le> maxTasksPerIteration w \<longrightarrow>
            map called (trace (snd (runTasksImmediately (run es w)))) =
              map called (trace w) @ rev (unshifted es) @ map task (taskQueue w) @ pushed es)"
proof (intro conjI impI)
  show q: "map task (taskQueue (run es w)) =
           rev (unshifted es) @ map task (taskQueue w) @ pushed es"
    by (rule enqueues_queue[OF assms])
  assume a: "\<not> isProcessing w \<and> int (length (taskQueue (run es w))) \<le> maxTasksPerIteration w"
  note f = enqueues_frame[OF assms, of w]
  have np: "\<not> isProcessing (run es w)" using a f by simp
  have cap: "int (length (taskQueue (run es w))) \<le> maxTasksPerIteration (run es w)"
    using a f by simp
  show "map called (trace (snd (runTasksImmediately (run es w)))) =
          map called (trace w) @ rev (unshifted es) @ map task (taskQueue w) @ pushed es"
    using q f by (simp add: runTasksImmediately_all(3)[OF np cap])
qed

theorem unshift_is_lifo_witness:
  "enqueues_only [PushTask (Task 3 0 None) None, UnshiftTask (Task 1 0 None) None,
      UnshiftTask (Task 2 0 None) None] \<and>
   \<not> isProcessing (constructor default_config (page True False Visible)) \<and>
   int (length (taskQueue (run [PushTask (Task 3 0 None) None, UnshiftTask (Task 1 0 None) None,
      UnshiftTask (Task 2 0 None) None] (constructor default_config (page True False Visible)))))
     \<le> maxTasksPerIteration (constructor default_config (page True False Visible)) \<and>
   map called (trace (snd (runTasksImmediately
     (run [PushTask (Task 3 0 None) None, UnshiftTask (Task 1 0 None) None,
        UnshiftTask (Task 2 0 None) None]
        (constructor default_config (page True False Visible))))))
     = [Task 2 0 None, Task 1 0 None, Task 3 0 None]"
proof -
  let ?c = "constructor default_config (page True False Visible)"
  let ?es = "[PushTask (Task 3 0 None) None, UnshiftTask (Task 1 0 None) None,
      UnshiftTask (Task 2 0 None) None]"
  have h1: "enqueues_only ?es" by simp
  have h2: "\<not> isProcessing ?c \<and> int (length (taskQueue (run ?es ?c))) \<le> maxTasksPerIteration ?c"
    by (simp add: default_config_def MAX_TASKS_PER_ITERATION_def)
  have t: "trace ?c = []" by (simp add: page_def)
  from unshift_is_lifo [OF h1, of ?c] h2
  have "map called (trace (snd (runTasksImmediately (run ?es ?c)))) =
          map called (trace ?c) @ rev (unshifted ?es) @ map task (taskQueue ?c) @ pushed ?es"
    by blast
  then show ?thesis using h1 h2 t by simp
qed

text \<open>
  Two tasks are unshifted, first task 1 and then task 2, behind them a pushed task 3:
  task 2 is queued, and called, before task 1.
\<close>

theorem unshift_fifo_counterexample:
  "map ident (map task (taskQueue
     (run [PushTask (Task 3 0 None) None, UnshiftTask (Task 1 0 None) None,
           UnshiftTask (Task 2 0 None) None]
        (constructor default_config (page True False Visible))))) = [2, 1, 3] \<and>
   map ident (map called (trace (snd (runTasksImmediately
     (run [PushTask (Task 3 0 None) None, UnshiftTask (Task 1 0 None) None,
           UnshiftTask (Task 2 0 None) None]
        (constructor default_config (page True False Visible))))))) \<noteq> [1, 2, 3]"
  by (simp add: model_defs)

subsection \<open>Yielding to the deadline\<close>

text \<open>
  Claim C2. \<^verbatim>\<open>shouldYield\<close> is true exactly when a deadline object is present and its
  remaining time is at most the minimum task time, an absent minimum counting as \<open>0\<close>.
  In particular, let a task with a minimum task time of \<open>10\<close> stand anywhere in the
  queue, at index \<open>p\<close>, and let the deadline report \<open>5\<close> when the loop comes to it, that
  is once the tasks before it have run. Then a drain returns normally having called
  only tasks that stood before it, in order: it has made at most \<open>p\<close> passes, the task is
  still queued, behind the tasks before it that were not called either, and (unless
  the drain was a nested call) the queue has asked to be run again.
\<close>

theorem shouldYield_iff:
  "(shouldYield d m t \<longleftrightarrow>
      (\<exists>dl. d = Some dl \<and> timeRemaining dl t \<le> (case m of None \<Rightarrow> 0 | Some v \<Rightarrow> v))) \<and>
   (p < length (taskQueue w) \<and> minTaskTime (taskQueue w ! p) = 10 \<and>
    timeRemaining dl'
      (now w + sum_list (map (\<lambda>i. duration (task i)) (take p (taskQueue w)))) = 5 \<longrightarrow>
      fst (runTasks (Some dl') w) = Inr () \<and>
      (\<exists>k\<le>p. trace (snd (runTasks (Some dl') w)) =
                trace w @ invocations (take k (taskQueue w)) \<and>
              taskQueue (snd (runTasks (Some dl') w)) = drop k (taskQueue w) \<and>
              taskQueue (snd (runTasks (Some dl') w)) ! (p - k) = taskQueue w ! p) \<and>
      (\<not> isProcessing w \<longrightarrow> 0 < outstanding_requests (snd (runTasks (Some dl') w))))"
proof (intro conjI impI)
  show "shouldYield d m t \<longleftrightarrow>
      (\<exists>dl. d = Some dl \<and> timeRemaining dl t \<le> (case m of None \<Rightarrow> 0 | Some v \<Rightarrow> v))"
    by (auto simp: shouldYield_def js_or_def split: option.splits)
next
  assume a: "p < length (taskQueue w) \<and> minTaskTime (taskQueue w ! p) = 10 \<and>
    timeRemaining dl'
      (now w + sum_list (map (\<lambda>i. duration (task i)) (take p (taskQueue w)))) = 5"
  then have lt: "p < length (taskQueue w)" by simp
  have sy: "shouldYield (Some dl') (Some (minTaskTime (taskQueue w ! p)))
      (now w + sum_list (map (\<lambda>i. duration (task i)) (take p (taskQueue w))))"
    using a by (simp add: shouldYield_def js_or_def)
  from runTasks_yield_at[OF lt sy] obtain k where
    k: "k \<le> p"
       "runTasks (Some dl') w =
           (Inr (), if isProcessing w then cancelScheduledRun w
              else scheduleTasksToRun
                     (run_items (take k (taskQueue w)) (cancelScheduledRun w)
                        \<lparr>taskQueue := drop k (taskQueue w)\<rparr>))"
    by blast
  show "fst (runTasks (Some dl') w) = Inr ()" by (simp add: k(2))
  show "\<exists>k\<le>p. trace (snd (runTasks (Some dl') w)) =
                trace w @ invocations (take k (taskQueue w)) \<and>
              taskQueue (snd (runTasks (Some dl') w)) = drop k (taskQueue w) \<and>
              taskQueue (snd (runTasks (Some dl') w)) ! (p - k) = taskQueue w ! p"
  proof (cases "isProcessing w")
    case True
    then show ?thesis by (intro exI[of _ 0]) (simp add: k(2))
  next
    case False
    then show ?thesis using k(1) lt
      by (intro exI[of _ k]) (simp add: k(2) run_items_eq)
  qed
  assume np: "\<not> isProcessing w"
  have "\<not> truthy (idleCallbackHandle
          (run_items (take k (taskQueue w)) (cancelScheduledRun w)
             \<lparr>taskQueue := drop k (taskQueue w)\<rparr>))"
    by (simp add: run_items_eq truthy_def)
  then show "0 < outstanding_requests (snd (runTasks (Some dl') w))"
    using np by (simp add: k(2) scheduleTasksToRun_outstanding)
qed

text \<open>
  A task without a minimum is pushed and then one with a minimum of \<open>10\<close>; the deadline
  always reports \<open>5\<close>. The drain calls the first task and leaves the second queued.
\<close>

theorem shouldYield_iff_witness:
  "1 < length (taskQueue (push_all
       [(Task 1 3 None, None), (Task 2 0 None, Some (Options (Some 10)))]
       (constructor default_config (page True False Visible)))) \<and>
   minTaskTime (taskQueue (push_all
       [(Task 1 3 None, None), (Task 2 0 None, Some (Options (Some 10)))]
       (constructor default_config (page True False Visible))) ! 1) = 10 \<and>
   timeRemaining (HostIdleDeadline False (\<lambda>t. 5))
     (now (push_all [(Task 1 3 None, None), (Task 2 0 None, Some (Options (Some 10)))]
        (constructor default_config (page True False Visible))) +
      sum_list (map (\<lambda>i. duration (task i)) (take 1 (taskQueue (push_all
        [(Task 1 3 None, None), (Task 2 0 None, Some (Options (Some 10)))]
        (constructor default_config (page True False Visible))))))) = 5 \<and>
   (\<exists>k\<le>1. length (trace (snd (runTasks (Some (HostIdleDeadline False (\<lambda>t. 5)))
        (push_all [(Task 1 3 None, None), (Task 2 0 None, Some (Options (Some 10)))]
          (constructor default_config (page True False Visible)))))) = k \<and>
      length (taskQueue (snd (runTasks (Some (HostIdleDeadline False (\<lambda>t. 5)))
        (push_all [(Task 1 3 None, None), (Task 2 0 None, Some (Options (Some 10)))]
          (constructor default_config (page True False Visible)))))) = 2 - k) \<and>
   map called (trace (snd (runTasks (Some (HostIdleDeadline False (\<lambda>t. 5)))
        (push_all [(Task 1 3 None, None), (Task 2 0 None, Some (Options (Some 10)))]
          (constructor default_config (page True False Visible)))))) = [Task 1 3 None] \<and>
   map task (taskQueue (snd (runTasks (Some (HostIdleDeadline False (\<lambda>t. 5)))
        (push_all [(Task 1 3 None, None), (Task 2 0 None, Some (Options (Some 10)))]
          (constructor default_config (page True False Visible)))))) = [Task 2 0 None]"
proof -
  let ?c = "constructor default_config (page True False Visible)"
  let ?q = "push_all [(Task 1 3 None, None), (Task 2 0 None, Some (Options (Some 10)))] ?c"
  let ?d = "HostIdleDeadline False (\<lambda>t. 5)"
  have l: "length (taskQueue ?q) = 2" and t: "trace ?q = []"
    by (simp_all add: model_defs)
  have h: "1 < length (taskQueue ?q) \<and> minTaskTime (taskQueue ?q ! 1) = 10 \<and>
     timeRemaining ?d
       (now ?q + sum_list (map (\<lambda>i. duration (task i)) (take 1 (taskQueue ?q)))) = 5"
    by (simp add: model_defs)
  from shouldYield_iff [of None None 0 1 ?q ?d] h obtain k where
    k: "k \<le> 1"
       "trace (snd (runTasks (Some ?d) ?q)) = trace ?q @ invocations (take k (taskQueue ?q))"
       "taskQueue (snd (runTasks (Some ?d) ?q)) = drop k (taskQueue ?q)"
    by blast
  have "length (trace (snd (runTasks (Some ?d) ?q))) = k \<and>
        length (taskQueue (snd (runTasks (Some ?d) ?q))) = 2 - k"
    using k l t by simp
  then have c1: "\<exists>k\<le>1. length (trace (snd (runTasks (Some ?d) ?q))) = k \<and>
        length (taskQueue (snd (runTasks (Some ?d) ?q))) = 2 - k"
    using k(1) by blast
  have c2: "map called (trace (snd (runTasks (Some ?d) ?q))) = [Task 1 3 None]"
    and c3: "map task (taskQueue (snd (runTasks (Some ?d) ?q))) = [Task 2 0 None]"
    by (simp_all add: model_defs)
  show ?thesis using h c1 c2 c3 by blast
qed

subsection \<open>The cap on one drain\<close>

text \<open>
  Claim C3. When the queue holds more tasks than \<^verbatim>\<open>maxTasksPerIteration\<close> (a count, so
  not negative), one call of \<^verbatim>\<open>runTasks\<close> without a deadline calls at most that many
  of them, the ones at the front and in order, and leaves the others in the queue. A
  call that is not nested calls exactly that many.
\<close>

theorem iteration_cap:
  assumes "0 \<le> maxTasksPerIteration w"
      and "maxTasksPerIteration w < int (length (taskQueue w))"
  shows "\<exists>k. int k \<le> maxTasksPerIteration w \<and>
           trace (snd (runTasks None w)) = trace w @ invocations (take k (taskQueue w)) \<and>
           taskQueue (snd (runTasks None w)) = drop k (taskQueue w) \<and>
           taskQueue (snd (runTasks None w)) \<noteq> [] \<and>
           (\<not> isProcessing w \<longrightarrow> int k = maxTasksPerIteration w)"
proof (cases "isProcessing w")
  case True
  then show ?thesis using assms
    by (intro exI[of _ 0]) (auto simp: runTasks_processing)
next
  case False
  show ?thesis using assms False
    by (intro exI[of _ "nat (maxTasksPerIteration w)"])
       (simp add: runTasks_None_fields[OF False])
qed

theorem iteration_cap_witness:
  "0 \<le> maxTasksPerIteration
      (push_all [(Task 1 0 None, None), (Task 2 0 None, None), (Task 3 0 None, None)]
         (constructor (capped_config 2) (page True False Visible))) \<and>
   maxTasksPerIteration
      (push_all [(Task 1 0 None, None), (Task 2 0 None, None), (Task 3 0 None, None)]
         (constructor (capped_config 2) (page True False Visible)))
     < int (length (taskQueue
      (push_all [(Task 1 0 None, None), (Task 2 0 None, None), (Task 3 0 None, None)]
         (constructor (capped_config 2) (page True False Visible))))) \<and>
   (\<exists>k. int k \<le> 2 \<and>
     length (trace (snd (runTasks None
      (push_all [(Task 1 0 None, None), (Task 2 0 None, None), (Task 3 0 None, None)]
         (constructor (capped_config 2) (page True False Visible)))))) = k \<and>
     length (taskQueue (snd (runTasks None
      (push_all [(Task 1 0 None, None), (Task 2 0 None, None), (Task 3 0 None, None)]
         (constructor (capped_config 2) (page True False Visible)))))) = 3 - k)"
proof -
  let ?w = "push_all [(Task 1 0 None, None), (Task 2 0 None, None), (Task 3 0 None, None)]
         (constructor (capped_config 2) (page True False Visible))"
  have c: "maxTasksPerIteration ?w = 2" by (simp add: model_defs)
  have l: "length (taskQueue ?w) = 3" by (simp add: model_defs)
  have t: "trace ?w = []" by (simp add: model_defs)
  have h1: "0 \<le> maxTasksPerIteration ?w" and h2: "maxTasksPerIteration ?w < int (length (taskQueue ?w))"
    using c l by simp_all
  from iteration_cap [OF h1 h2] obtain k where
    "int k \<le> maxTasksPerIteration ?w"
    "trace (snd (runTasks None ?w)) = trace ?w @ invocations (take k (taskQueue ?w))"
    "taskQueue (snd (runTasks None ?w)) = drop k (taskQueue ?w)"
    by blast
  then have "int k \<le> 2 \<and> length (trace (snd (runTasks None ?w))) = k \<and>
     length (taskQueue (snd (runTasks None ?w))) = 3 - k"
    using c l t by simp
  then show ?thesis using h1 h2 by blast
qed

subsection \<open>A task that throws\<close>



subsection \<open>Running the queue at once\<close>

text \<open>
  Claim C5. Let \<open>N\<close> tasks be given to \<^verbatim>\<open>pushTask\<close>, one after the other, on a queue that
  is empty and not draining, with \<open>N\<close> at most \<^verbatim>\<open>maxTasksPerIteration\<close>. Then
  \<^verbatim>\<open>runTasksImmediately\<close> returns normally, \<^verbatim>\<open>hasPendingTasks\<close> is false afterwards, and
  the calls it added to the trace are the \<open>N\<close> tasks, each once, in the order pushed.
\<close>

theorem runTasksImmediately_fifo:
  assumes "taskQueue w = []" and "\<not> isProcessing w"
      and "int (length ts) \<le> maxTasksPerIteration w"
  shows "fst (runTasksImmediately (push_all ts w)) = Inr () \<and>
         hasPendingTasks (snd (runTasksImmediately (push_all ts w))) = False \<and>
         trace (snd (runTasksImmediately (push_all ts w))) =
           trace w @ invocations (map (\<lambda>(tsk, opts). new_item tsk opts w) ts) \<and>
         map called (trace (snd (runTasksImmediately (push_all ts w)))) =
           map called (trace w) @ map fst ts"
proof -
  let ?w = "push_all ts w"
  have q: "taskQueue ?w = map (\<lambda>(tsk, opts). new_item tsk opts w) ts"
    using assms(1) by (simp add: push_all_queue)
  have np: "\<not> isProcessing ?w" using assms(2) by simp
  have cap: "int (length (taskQueue ?w)) \<le> maxTasksPerIteration ?w"
    using assms(3) by (simp add: q)
  note r = runTasksImmediately_all[OF np cap]
  show ?thesis
    by (auto simp: r hasPendingTasks_def q)
qed

theorem runTasksImmediately_fifo_witness:
  "taskQueue (constructor default_config (page True False Visible)) = [] \<and>
   \<not> isProcessing (constructor default_config (page True False Visible)) \<and>
   int (length [(Task 1 0 None, None), (Task 2 0 None, None), (Task 3 0 None, None)])
     \<le> maxTasksPerIteration (constructor default_config (page True False Visible)) \<and>
   hasPendingTasks (snd (runTasksImmediately
     (push_all [(Task 1 0 None, None), (Task 2 0 None, None), (Task 3 0 None, None)]
        (constructor default_config (page True False Visible))))) = False \<and>
   map called (trace (snd (runTasksImmediately
     (push_all [(Task 1 0 None, None), (Task 2 0 None, None), (Task 3 0 None, None)]
        (constructor default_config (page True False Visible))))))
     = [Task 1 0 None, Task 2 0 None, Task 3 0 None]"
proof -
  let ?c = "constructor default_config (page True False Visible)"
  let ?ts = "[(Task 1 0 None, None :: options option), (Task 2 0 None, None),
              (Task 3 0 None, None)]"
  have h1: "taskQueue ?c = []" and h2: "\<not> isProcessing ?c" by simp_all
  have h3: "int (length ?ts) \<le> maxTasksPerIteration ?c"
    by (simp add: default_config_def MAX_TASKS_PER_ITERATION_def)
  have t: "trace ?c = []" by (simp add: page_def)
  from runTasksImmediately_fifo [OF h1 h2 h3]
  have "hasPendingTasks (snd (runTasksImmediately (push_all ?ts ?c))) = False \<and>
        map called (trace (snd (runTasksImmediately (push_all ?ts ?c)))) =
          map called (trace ?c) @ map fst ?ts"
    by blast
  then show ?thesis using h1 h2 h3 t by simp
qed

subsection \<open>Scheduling requests\<close>

text \<open>
  Claim C6, as the code has it. Whatever happens to a queue constructed on a page with no
  idle callback pending, the host never holds more than one idle callback for it: when
  the scheduling step takes the idle path and the handle is set, it requests nothing.
  On the microtask path (a browser, \<^verbatim>\<open>ensureTasksRun\<close>, the page hidden) the scheduling
  step queues one more microtask every time, whatever is already queued or pending.
\<close>

theorem one_idle_request:
  assumes "idle_requests w = []"
  shows "length (idle_requests (run es (constructor cfg w))) \<le> 1 \<and>
         (\<forall>w' :: World. truthy (idleCallbackHandle w') \<and>
               \<not> (isBrowser w' \<and> ensureTasksRun w' \<and> document_visibilityState w' = Hidden) \<longrightarrow>
               scheduleTasksToRun w' = w') \<and>
         (\<forall>w' :: World. isBrowser w' \<and> ensureTasksRun w' \<and> document_visibilityState w' = Hidden \<longrightarrow>
               microtasks (scheduleTasksToRun w') = Suc (microtasks w') \<and>
               idle_requests (scheduleTasksToRun w') = idle_requests w')"
proof (intro conjI allI impI)
  have "idle_ok (constructor cfg w)" using assms by (intro idle_ok_empty) simp
  then have "idle_ok (run es (constructor cfg w))" by (rule idle_ok_run)
  then show "length (idle_requests (run es (constructor cfg w))) \<le> 1" by (rule idle_ok_length)
next
  fix w' :: World
  assume "truthy (idleCallbackHandle w') \<and>
          \<not> (isBrowser w' \<and> ensureTasksRun w' \<and> document_visibilityState w' = Hidden)"
  then show "scheduleTasksToRun w' = w'" by (auto simp: scheduleTasksToRun_def)
next
  fix w' :: World
  assume a: "isBrowser w' \<and> ensureTasksRun w' \<and> document_visibilityState w' = Hidden"
  then show "microtasks (scheduleTasksToRun w') = Suc (microtasks w')"
    by (simp add: scheduleTasksToRun_def call_queueMicrotask_def Let_def split: option.split)
  from a show "idle_requests (scheduleTasksToRun w') = idle_requests w'"
    by (simp add: scheduleTasksToRun_def call_queueMicrotask_def Let_def split: option.split)
qed

theorem one_idle_request_witness:
  "idle_requests (page True False Visible) = [] \<and>
   length (idle_requests (run [PushTask (Task 1 0 None) None, PushTask (Task 2 0 None) None]
      (constructor default_config (page True False Visible)))) \<le> 1 \<and>
   truthy (idleCallbackHandle (run [PushTask (Task 1 0 None) None]
      (constructor default_config (page True False Visible)))) \<and>
   \<not> (isBrowser (run [PushTask (Task 1 0 None) None]
          (constructor default_config (page True False Visible))) \<and>
      ensureTasksRun (run [PushTask (Task 1 0 None) None]
          (constructor default_config (page True False Visible))) \<and>
      document_visibilityState (run [PushTask (Task 1 0 None) None]
          (constructor default_config (page True False Visible))) = Hidden) \<and>
   scheduleTasksToRun (run [PushTask (Task 1 0 None) None]
      (constructor default_config (page True False Visible))) =
     run [PushTask (Task 1 0 None) None] (constructor default_config (page True False Visible)) \<and>
   isBrowser (constructor ensure_config (page True False Hidden)) \<and>
   ensureTasksRun (constructor ensure_config (page True False Hidden)) \<and>
   document_visibilityState (constructor ensure_config (page True False Hidden)) = Hidden \<and>
   microtasks (scheduleTasksToRun (constructor ensure_config (page True False Hidden))) = 1"
proof -
  let ?p = "page True False Visible"
  let ?a = "run [PushTask (Task 1 0 None) None] (constructor default_config ?p)"
  let ?b = "constructor ensure_config (page True False Hidden)"
  have h1: "idle_requests ?p = []" by (simp add: page_def)
  have h2: "truthy (idleCallbackHandle ?a) \<and>
            \<not> (isBrowser ?a \<and> ensureTasksRun ?a \<and> document_visibilityState ?a = Hidden)"
    by (simp add: model_defs)
  have h3: "isBrowser ?b \<and> ensureTasksRun ?b \<and> document_visibilityState ?b = Hidden"
    by (simp add: model_defs)
  have m: "microtasks ?b = 0" by (simp add: page_def)
  note t = one_idle_request [OF h1,
      of "[PushTask (Task 1 0 None) None, PushTask (Task 2 0 None) None]" default_config]
  from t have c1: "length (idle_requests (run [PushTask (Task 1 0 None) None,
      PushTask (Task 2 0 None) None] (constructor default_config ?p))) \<le> 1"
    by blast
  from t h2 have c2: "scheduleTasksToRun ?a = ?a" by blast
  from t h3 have "microtasks (scheduleTasksToRun ?b) = Suc (microtasks ?b)" by blast
  then have c3: "microtasks (scheduleTasksToRun ?b) = 1" using m by simp
  show ?thesis using h1 h2 h3 c1 c2 c3 by blast
qed

text \<open>
  Two tasks are pushed while the page is hidden and \<^verbatim>\<open>ensureTasksRun\<close> is set: the
  second call queues a second microtask while the first is still queued.
\<close>

theorem microtask_requests_counterexample:
  "\<not> outstanding_requests
       (run [PushTask (Task 1 0 None) None, PushTask (Task 2 0 None) None]
          (constructor ensure_config (page True False Hidden))) \<le> 1"
  by (simp add: model_defs)

subsection \<open>The listeners after \<^verbatim>\<open>destroy\<close>\<close>

text \<open>
  Claim C7, at a Safari page with \<^verbatim>\<open>ensureTasksRun\<close> set. The constructor registers two
  listeners. \<^verbatim>\<open>destroy\<close> removes the one for \<^verbatim>\<open>beforeunload\<close>; for \<^verbatim>\<open>visibilitychange\<close> it
  names \<^verbatim>\<open>this.runTasksImmediately\<close>, which is not the arrow function that was
  registered, so that listener stays and still drains the queue when the page is hidden.
\<close>

theorem destroy_leaves_visibilitychange_listener:
  "listeners (constructor ensure_config (page True True Visible)) =
     [(''visibilitychange'', HiddenArrow, True),
      (''beforeunload'', BoundRunTasksImmediately, True)] \<and>
   listeners (destroy (constructor ensure_config (page True True Visible))) =
     [(''visibilitychange'', HiddenArrow, True)] \<and>
   map called (trace (run [Destroy, PushTask (Task 1 0 None) None, VisibilityChange Hidden]
       (constructor ensure_config (page True True Visible)))) = [Task 1 0 None]"
  by (simp add: model_defs)

subsection \<open>The deadline of the polyfill\<close>

text \<open>
  Claim C8. For every start time and every current time, \<^verbatim>\<open>timeRemaining()\<close> of the
  polyfill's deadline object is \<open>max 0 (50 - (now - start))\<close>, which is never negative,
  and its \<^verbatim>\<open>didTimeout\<close> is false. The start time is the clock at the time of the
  request: that is the object \<^verbatim>\<open>requestIdleCallbackShim\<close> keeps for the callback.
\<close>

theorem shim_deadline_timeRemaining:
  "timeRemaining (ShimIdleDeadline deadlineStartedAt) t = max 0 (50 - (t - deadlineStartedAt)) \<and>
   0 \<le> timeRemaining (ShimIdleDeadline deadlineStartedAt) t \<and>
   didTimeout (ShimIdleDeadline deadlineStartedAt) = False \<and>
   idle_requests (snd (requestIdleCallbackShim w)) =
     idle_requests w @ [(fst (requestIdleCallbackShim w), Some (ShimIdleDeadline (now w)))]"
  by (simp add: requestIdleCallbackShim_def Let_def)

theorem shim_deadline_timeRemaining_witness:
  "timeRemaining (ShimIdleDeadline 100) 120 = 30 \<and>
   timeRemaining (ShimIdleDeadline 100) 170 = 0 \<and>
   didTimeout (ShimIdleDeadline 100) = False"
  using shim_deadline_timeRemaining [of 100 120] shim_deadline_timeRemaining [of 100 170]
  by simp

subsection \<open>The state a task sees\<close>

text \<open>
  Claim C9. \<^verbatim>\<open>getState()\<close> is null on a new queue, after anything that happens to it
  (calls of its methods, idle callbacks, microtasks, page events), after every call of
  \<^verbatim>\<open>runTasks\<close> entered with it null, and after each pass of the loop body, whether the
  task returned or threw. During the call of a task it is the state stored in the task's
  item, which is the one captured when the task was enqueued, not the page's state at
  the time of the call.
\<close>

theorem getState_only_during_task:
  "getState (constructor cfg w) = None \<and>
   getState (run es (constructor cfg w)) = None \<and>
   (\<forall>c \<in> set (drop (length (trace w)) (trace (run es (constructor cfg w)))).
      observed c = Some (argument c)) \<and>
   (\<forall>d (w' :: World). getState w' = None \<longrightarrow> getState (snd (runTasks d w')) = None) \<and>
   (\<forall>i (w' :: World).
      getState (snd (run_item i w')) = None \<and>
      trace (snd (run_item i w')) =
        trace w' @ [\<lparr>called = task i, argument = TaskQueueItem.state i,
                     observed = Some (TaskQueueItem.state i)\<rparr>]) \<and>
   (\<forall>(w' :: World) tsk opts dt.
      taskQueue w' = [] \<and> \<not> isProcessing w' \<and> 0 < maxTasksPerIteration w' \<longrightarrow>
      trace (snd (runTasksImmediately (step (Elapse dt) (pushTask tsk opts w')))) =
        trace w' @ [\<lparr>called = tsk, argument = stamp w', observed = Some (stamp w')\<rparr>])"
proof (intro conjI allI impI ballI)
  show "getState (constructor cfg w) = None" by (simp add: getState_def)
  show "getState (run es (constructor cfg w)) = None" by (simp add: getState_def run_state)
next
  fix c
  assume c: "c \<in> set (drop (length (trace w)) (trace (run es (constructor cfg w))))"
  from run_trace[of es "constructor cfg w"] obtain items where
    "trace (run es (constructor cfg w)) = trace w @ invocations items" by auto
  with c have "c \<in> set (invocations items)" by simp
  then show "observed c = Some (argument c)" by (auto simp: invocations_def)
next
  fix d and w' :: World
  assume "getState w' = None"
  then show "getState (snd (runTasks d w')) = None" by (simp add: getState_def runTasks_state)
next
  fix i and w' :: World
  show "getState (snd (run_item i w')) = None" by (simp add: run_item_eq getState_def)
  show "trace (snd (run_item i w')) =
        trace w' @ [\<lparr>called = task i, argument = TaskQueueItem.state i,
                     observed = Some (TaskQueueItem.state i)\<rparr>]"
    by (simp add: run_item_eq)
next
  fix w' :: World and tsk opts dt
  assume a: "taskQueue w' = [] \<and> \<not> isProcessing w' \<and> 0 < maxTasksPerIteration w'"
  let ?w = "step (Elapse dt) (pushTask tsk opts w')"
  have q: "taskQueue ?w = [new_item tsk opts w']" using a by simp
  have np: "\<not> isProcessing ?w" using a by simp
  have cap: "int (length (taskQueue ?w)) \<le> maxTasksPerIteration ?w" using a by simp
  show "trace (snd (runTasksImmediately ?w)) =
        trace w' @ [\<lparr>called = tsk, argument = stamp w', observed = Some (stamp w')\<rparr>]"
    using runTasksImmediately_all(3)[OF np cap] q by (simp add: new_item_def)
qed

theorem getState_only_during_task_witness:
  "getState (run [PushTask (Task 1 0 (Some (Error 7))) None, RunTasksImmediately]
      (constructor default_config (page True False Visible))) = None \<and>
   console (run [PushTask (Task 1 0 (Some (Error 7))) None, RunTasksImmediately]
      (constructor default_config (page True False Visible))) = [Error 7] \<and>
   taskQueue (constructor default_config (page True False Visible)) = [] \<and>
   \<not> isProcessing (constructor default_config (page True False Visible)) \<and>
   0 < maxTasksPerIteration (constructor default_config (page True False Visible)) \<and>
   trace (snd (runTasksImmediately (step (Elapse 30) (pushTask (Task 1 0 None) None
      (constructor default_config (page True False Visible)))))) =
     [\<lparr>called = Task 1 0 None, argument = \<lparr>time = 0, visibilityState = Visible\<rparr>,
       observed = Some \<lparr>time = 0, visibilityState = Visible\<rparr>\<rparr>] \<and>
   now (step (Elapse 30) (pushTask (Task 1 0 None) None
      (constructor default_config (page True False Visible)))) = 30"
proof -
  let ?c = "constructor default_config (page True False Visible)"
  let ?es = "[PushTask (Task 1 0 (Some (Error 7))) None, RunTasksImmediately]"
  note t = getState_only_during_task [of default_config "page True False Visible" ?es]
  have h: "taskQueue ?c = [] \<and> \<not> isProcessing ?c \<and> 0 < maxTasksPerIteration ?c"
    by (simp add: default_config_def MAX_TASKS_PER_ITERATION_def)
  have e: "console (run ?es ?c) = [Error 7]" by (simp add: model_defs)
  have s: "stamp ?c = \<lparr>time = 0, visibilityState = Visible\<rparr>" "trace ?c = []"
    "now (step (Elapse 30) (pushTask (Task 1 0 None) None ?c)) = 30"
    by (simp_all add: model_defs)
  from t have c1: "getState (run ?es ?c) = None" by blast
  from t h have "trace (snd (runTasksImmediately (step (Elapse 30)
        (pushTask (Task 1 0 None) None ?c)))) =
      trace ?c @ [\<lparr>called = Task 1 0 None, argument = stamp ?c, observed = Some (stamp ?c)\<rparr>]"
    by blast
  then have c2: "trace (snd (runTasksImmediately (step (Elapse 30)
        (pushTask (Task 1 0 None) None ?c)))) =
     [\<lparr>called = Task 1 0 None, argument = \<lparr>time = 0, visibilityState = Visible\<rparr>,
       observed = Some \<lparr>time = 0, visibilityState = Visible\<rparr>\<rparr>]"
    using s by simp
  show ?thesis using c1 c2 e h s(3) by blast
qed

subsection \<open>The minimum task time of a stored item\<close>

text \<open>
  Claim C10. The item that \<^verbatim>\<open>pushTask\<close> appends and \<^verbatim>\<open>unshiftTask\<close> prepends carries
  \<open>max 0 (requested || default)\<close> as its \<^verbatim>\<open>minTaskTime\<close>: it is never negative, a
  requested value that is absent or \<open>0\<close> is replaced by the queue's default, and any
  other requested value is kept, raised to \<open>0\<close> when negative.
\<close>

theorem stored_minTaskTime:
  "taskQueue (pushTask tsk opts w) =
     taskQueue w @
       [\<lparr>TaskQueueItem.state = stamp w, task = tsk,
         minTaskTime = max 0 (js_or (options_minTaskTime opts) (defaultMinTaskTime w))\<rparr>] \<and>
   taskQueue (unshiftTask tsk opts w) =
     \<lparr>TaskQueueItem.state = stamp w, task = tsk,
       minTaskTime = max 0 (js_or (options_minTaskTime opts) (defaultMinTaskTime w))\<rparr>
       # taskQueue w \<and>
   0 \<le> minTaskTime (last (taskQueue (pushTask tsk opts w))) \<and>
   0 \<le> minTaskTime (hd (taskQueue (unshiftTask tsk opts w))) \<and>
   (options_minTaskTime opts = None \<or> options_minTaskTime opts = Some 0 \<longrightarrow>
      minTaskTime (last (taskQueue (pushTask tsk opts w))) = max 0 (defaultMinTaskTime w) \<and>
      minTaskTime (hd (taskQueue (unshiftTask tsk opts w))) = max 0 (defaultMinTaskTime w)) \<and>
   (\<forall>v. options_minTaskTime opts = Some v \<and> v \<noteq> 0 \<longrightarrow>
      minTaskTime (last (taskQueue (pushTask tsk opts w))) = max 0 v \<and>
      minTaskTime (hd (taskQueue (unshiftTask tsk opts w))) = max 0 v)"
  by (auto simp: new_item_def js_or_def)

theorem stored_minTaskTime_witness:
  "minTaskTime (last (taskQueue (pushTask (Task 1 0 None) (Some (Options (Some (- 5))))
      (constructor default_config (page True False Visible))))) = 0 \<and>
   minTaskTime (hd (taskQueue (unshiftTask (Task 1 0 None) (Some (Options (Some 0)))
      ((page True False Visible)\<lparr>defaultMinTaskTime := 7\<rparr>)))) = 7 \<and>
   minTaskTime (last (taskQueue (pushTask (Task 1 0 None) (Some (Options (Some 3)))
      ((page True False Visible)\<lparr>defaultMinTaskTime := 7\<rparr>)))) = 3"
  using stored_minTaskTime [of "Task 1 0 None" "Some (Options (Some (- 5)))"
          "constructor default_config (page True False Visible)"]
        stored_minTaskTime [of "Task 1 0 None" "Some (Options (Some 0))"
          "(page True False Visible)\<lparr>defaultMinTaskTime := 7\<rparr>"]
        stored_minTaskTime [of "Task 1 0 None" "Some (Options (Some 3))"
          "(page True False Visible)\<lparr>defaultMinTaskTime := 7\<rparr>"]
  by (simp add: model_defs)

end
